theory Spec2Isabelle
  imports Main "HOL-Library.Finite_Map" "HOL-Library.List_Lexorder"
begin

section \<open>Python strings\<close>

text \<open>
  A Python \<open>str\<close> is a sequence of Unicode code points; a code point is modelled by its
  number, so that nothing is lost outside ASCII. Lists of code points are ordered
  lexicographically (\<open>List_Lexorder\<close>), which is the order Python's \<open>sorted\<close> uses on \<open>str\<close>.
\<close>

type_synonym pystr = "nat list"

definition str :: "string \<Rightarrow> pystr" where
  "str s = map of_char s"

text \<open>\<open>str.isspace\<close> on one code point; the same class is \<open>\s\<close> of \<open>re\<close> on a \<open>str\<close> pattern.\<close>

definition isspace :: "nat \<Rightarrow> bool" where
  "isspace c \<longleftrightarrow>
     (9 \<le> c \<and> c \<le> 13) \<or> (28 \<le> c \<and> c \<le> 32) \<or> c = 133 \<or> c = 160 \<or> c = 5760 \<or>
     (8192 \<le> c \<and> c \<le> 8202) \<or> c = 8232 \<or> c = 8233 \<or> c = 8239 \<or> c = 8287 \<or> c = 12288"

text \<open>\<open>s.strip()\<close>\<close>

definition strip :: "pystr \<Rightarrow> pystr" where
  "strip s = rev (dropWhile isspace (rev (dropWhile isspace s)))"

text \<open>\<open>s.startswith(p)\<close> and \<open>s.endswith(p)\<close>\<close>

definition startswith :: "pystr \<Rightarrow> pystr \<Rightarrow> bool" where
  "startswith s p \<longleftrightarrow> take (length p) s = p"

definition endswith :: "pystr \<Rightarrow> pystr \<Rightarrow> bool" where
  "endswith s p \<longleftrightarrow> length p \<le> length s \<and> drop (length s - length p) s = p"

text \<open>\<open>s.split(sep, 1)\<close> with a one-character separator: one part when \<open>sep\<close> does not
  occur, otherwise the text before the first \<open>sep\<close> and the text after it.\<close>

definition split1 :: "nat \<Rightarrow> pystr \<Rightarrow> pystr list" where
  "split1 sep s =
     (if sep \<in> set s
      then [takeWhile (\<lambda>c. c \<noteq> sep) s, tl (dropWhile (\<lambda>c. c \<noteq> sep) s)]
      else [s])"

text \<open>\<open>s.split()\<close>: the maximal runs of non-whitespace, in order; \<open>w\<close> is the run being read.\<close>

fun split_acc :: "pystr \<Rightarrow> pystr \<Rightarrow> pystr list" where
  "split_acc w [] = (if w = [] then [] else [w])"
| "split_acc w (c # cs) =
     (if isspace c then (if w = [] then split_acc [] cs else w # split_acc [] cs)
      else split_acc (w @ [c]) cs)"

definition split_ws :: "pystr \<Rightarrow> pystr list" where
  "split_ws s = split_acc [] s"

section \<open>Python containers and errors\<close>

text \<open>
  A Python \<open>set\<close> that the program iterates over is modelled by the list of its elements in
  iteration order (Python does not fix that order; the traversal theorems hold for every
  list). A set that is only extended, tested for membership and sorted is a HOL set.
  A \<open>dict\<close> is a finite map.
\<close>

datatype error = IndexError

definition py_index :: "'a list \<Rightarrow> nat \<Rightarrow> error + 'a" where
  "py_index xs i = (if i < length xs then Inr (xs ! i) else Inl IndexError)"

definition set_add :: "'a \<Rightarrow> 'a list \<Rightarrow> 'a list" where
  "set_add x s = (if x \<in> set s then s else s @ [x])"

definition set_of_list :: "'a list \<Rightarrow> 'a list" where
  "set_of_list xs = remdups xs"

type_synonym deps = "(pystr, pystr list) fmap"

section \<open>\<open>parse_deps\<close>\<close>

text \<open>One iteration of the loop of \<open>parse_deps\<close> on the state \<open>(compile_deps, selected)\<close>.
  In \<open>compile_deps[parts[0]] = set(parts[1].split())\<close> Python evaluates the right-hand side
  first.\<close>

definition parse_line :: "deps \<times> pystr list \<Rightarrow> pystr \<Rightarrow> error + deps \<times> pystr list" where
  "parse_line st raw =
     (case st of (compile_deps, selected) \<Rightarrow>
        let line = strip raw in
        if startswith line (str ''SELECTED:'') then
          Inr (compile_deps, set_add (drop 9 line) selected)
        else if startswith line (str ''DEPS:'') then
          (let parts = split1 58 (drop 5 line) in
           if length parts = 2 then
             (case py_index parts 1 of
                Inl e \<Rightarrow> Inl e
              | Inr v \<Rightarrow>
                  (case py_index parts 0 of
                     Inl e \<Rightarrow> Inl e
                   | Inr k \<Rightarrow> Inr (fmupd k (set_of_list (split_ws v)) compile_deps, selected)))
           else Inr st)
        else Inr st)"

fun parse_lines :: "deps \<times> pystr list \<Rightarrow> pystr list \<Rightarrow> error + deps \<times> pystr list" where
  "parse_lines st [] = Inr st"
| "parse_lines st (l # ls) =
     (case parse_line st l of Inl e \<Rightarrow> Inl e | Inr st' \<Rightarrow> parse_lines st' ls)"

text \<open>The argument is the sequence of lines the file iterator yields; opening and decoding
  the file are outside the model. The only operation of the loop that can raise is the
  indexing of \<open>parts\<close>.\<close>

definition parse_deps :: "pystr list \<Rightarrow> error + deps \<times> pystr list" where
  "parse_deps lines = parse_lines (fmempty, []) lines"

section \<open>\<open>bfs_closure\<close>\<close>

text \<open>\<open>compile_deps.get(node, set())\<close>\<close>

definition deps_get :: "deps \<Rightarrow> pystr \<Rightarrow> pystr list" where
  "deps_get compile_deps node =
     (case fmlookup compile_deps node of None \<Rightarrow> [] | Some ds \<Rightarrow> ds)"

text \<open>The \<open>while queue:\<close> loop. \<open>queue.pop()\<close> takes the last element; the node is added to
  \<open>closure\<close> before its dependencies are tested against \<open>closure\<close>. \<open>None\<close> stands for a loop
  that does not return.\<close>

partial_function (option) bfs_loop :: "deps \<Rightarrow> pystr set \<Rightarrow> pystr list \<Rightarrow> pystr set option" where
  "bfs_loop compile_deps closure queue =
     (if queue = [] then Some closure
      else
        let node = last queue; queue = butlast queue in
        if node \<in> closure then bfs_loop compile_deps closure queue
        else
          let closure = insert node closure in
          bfs_loop compile_deps closure
            (queue @ filter (\<lambda>dep. dep \<notin> closure) (deps_get compile_deps node)))"

text \<open>\<open>selected\<close> is listed in the order \<open>list(selected)\<close> produces.\<close>

definition bfs_closure :: "pystr list \<Rightarrow> deps \<Rightarrow> pystr set option" where
  "bfs_closure selected compile_deps = bfs_loop compile_deps {} selected"

section \<open>\<open>packages_with_source\<close>\<close>

text \<open>\<open>re.match\<close> anchors the pattern at the start of the line only. In
  \<open>Source-Makefile: package/(.+)/Makefile\<close> the group \<open>.+\<close> is greedy and \<open>.\<close> matches every
  character but the newline: the engine first gives the group the whole run of non-newline
  characters and then shortens it one character at a time, down to one character, until
  \<open>/Makefile\<close> follows. \<open>greedy suf rest n\<close> tries the group lengths \<open>n, n - 1, \<dots>, 1\<close>.\<close>

fun greedy :: "pystr \<Rightarrow> pystr \<Rightarrow> nat \<Rightarrow> pystr option" where
  "greedy suf rest 0 = None"
| "greedy suf rest (Suc n) =
     (if startswith (drop (Suc n) rest) suf then Some (take (Suc n) rest)
      else greedy suf rest n)"

definition match_source_makefile :: "pystr \<Rightarrow> pystr option" where
  "match_source_makefile line =
     (let p = str ''Source-Makefile: package/''; rest = drop (length p) line in
      if startswith line p
      then greedy (str ''/Makefile'') rest (length (takeWhile (\<lambda>c. c \<noteq> 10) rest))
      else None)"

text \<open>\<open>Source: (\S+)\<close>: the group is the run of non-whitespace after the prefix, and it
  must not be empty.\<close>

definition match_source :: "pystr \<Rightarrow> pystr option" where
  "match_source line =
     (let p = str ''Source: ''; g = takeWhile (\<lambda>c. \<not> isspace c) (drop (length p) line) in
      if startswith line p \<and> g \<noteq> [] then Some g else None)"

text \<open>One iteration of the loop on the state \<open>(has_source, cur)\<close>; \<open>cur = None\<close> is Python's
  \<open>None\<close>. The test \<open>m and cur\<close> needs \<open>cur\<close> to be a non-empty string.\<close>

definition pkg_line :: "pystr set \<times> pystr option \<Rightarrow> pystr \<Rightarrow> pystr set \<times> pystr option" where
  "pkg_line st line =
     (case st of (has_source, cur) \<Rightarrow>
        (case match_source_makefile line of
           Some g \<Rightarrow> (has_source, Some g)
         | None \<Rightarrow>
             (case match_source line of
                None \<Rightarrow> st
              | Some _ \<Rightarrow>
                  (case cur of
                     None \<Rightarrow> st
                   | Some c \<Rightarrow> if c \<noteq> [] then (insert c has_source, cur) else st))))"

text \<open>The loop over the lines the file iterator yields (they are not stripped).\<close>

definition pkg_lines :: "pystr set \<times> pystr option \<Rightarrow> pystr list \<Rightarrow> pystr set \<times> pystr option" where
  "pkg_lines st lines = foldl pkg_line st lines"

definition packages_with_source :: "pystr list \<Rightarrow> pystr set" where
  "packages_with_source lines = fst (pkg_lines ({}, None) lines)"

section \<open>\<open>main\<close>\<close>

text \<open>\<open>d[:-5] if d.endswith("/host") else d\<close>\<close>

definition fold_host :: "pystr \<Rightarrow> pystr" where
  "fold_host d = (if endswith d (str ''/host'') then take (length d - 5) d else d)"

text \<open>The \<open>for d in sorted(extra)\<close> loop; the result is the list of printed lines.\<close>

fun print_extras :: "pystr set \<Rightarrow> pystr list \<Rightarrow> pystr list" where
  "print_extras has_source [] = []"
| "print_extras has_source (d # ds) =
     (let dl = fold_host d in
      if dl \<in> has_source then dl # print_extras has_source ds
      else print_extras has_source ds)"

text \<open>The part of \<open>main\<close> after the two files are read.\<close>

definition extras :: "deps \<Rightarrow> pystr list \<Rightarrow> pystr set \<Rightarrow> pystr list option" where
  "extras compile_deps selected has_source =
     (case bfs_closure selected compile_deps of
        None \<Rightarrow> None
      | Some closure \<Rightarrow>
          Some (print_extras has_source (sorted_list_of_set (closure - set selected))))"

text \<open>\<open>main\<close> on the lines of the two files: \<open>None\<close> when it does not return,
  \<open>Some (Inl e)\<close> when it raises \<open>e\<close>, \<open>Some (Inr out)\<close> when it prints the lines \<open>out\<close>.\<close>

definition main :: "pystr list \<Rightarrow> pystr list \<Rightarrow> (error + pystr list) option" where
  "main deps_lines pkginfo_lines =
     (case parse_deps deps_lines of
        Inl e \<Rightarrow> Some (Inl e)
      | Inr (compile_deps, selected) \<Rightarrow>
          (case bfs_closure selected compile_deps of
             None \<Rightarrow> None
           | Some closure \<Rightarrow>
               let has_source = packages_with_source pkginfo_lines in
               Some (Inr (print_extras has_source (sorted_list_of_set (closure - set selected))))))"

section \<open>Notions the properties are stated with\<close>

text \<open>A line that \<open>parse_deps\<close> is to skip: after stripping, it starts with neither marker,
  or it starts with \<open>DEPS:\<close> and the rest does not split on \<open>:\<close> into two parts.\<close>

definition malformed :: "pystr \<Rightarrow> bool" where
  "malformed raw \<longleftrightarrow>
     (let line = strip raw in
      (\<not> startswith line (str ''SELECTED:'') \<and> \<not> startswith line (str ''DEPS:'')) \<or>
      (startswith line (str ''DEPS:'') \<and> length (split1 58 (drop 5 line)) \<noteq> 2))"

text \<open>The node and the dependency text of a well-formed \<open>DEPS\<close> line.\<close>

definition deps_record :: "pystr \<Rightarrow> (pystr \<times> pystr) option" where
  "deps_record raw =
     (let line = strip raw; body = drop 5 line in
      if startswith line (str ''DEPS:'') \<and> 58 \<in> set body
      then Some (takeWhile (\<lambda>c. c \<noteq> 58) body, tl (dropWhile (\<lambda>c. c \<noteq> 58) body))
      else None)"

text \<open>The loop of \<open>bfs_closure\<close> once more, with a ghost list \<open>expanded\<close> that records each node
  at the moment the loop adds it to \<open>closure\<close> and goes through its dependencies. Nothing
  else differs from \<open>bfs_loop\<close>.\<close>

partial_function (option) bfs_expansions ::
  "deps \<Rightarrow> pystr set \<Rightarrow> pystr list \<Rightarrow> pystr list \<Rightarrow> (pystr set \<times> pystr list) option" where
  "bfs_expansions compile_deps closure queue expanded =
     (if queue = [] then Some (closure, expanded)
      else
        let node = last queue; queue = butlast queue in
        if node \<in> closure then bfs_expansions compile_deps closure queue expanded
        else
          let closure = insert node closure in
          bfs_expansions compile_deps closure
            (queue @ filter (\<lambda>dep. dep \<notin> closure) (deps_get compile_deps node))
            (expanded @ [node]))"

text \<open>The edges of the dependency relation, and the nodes reachable from a set of seeds.
  A node that is no key of the mapping has no outgoing edge.\<close>

definition dep_edges :: "deps \<Rightarrow> (pystr \<times> pystr) set" where
  "dep_edges compile_deps = {(u, v). v \<in> set (deps_get compile_deps u)}"

definition reachable :: "deps \<Rightarrow> pystr set \<Rightarrow> pystr set" where
  "reachable compile_deps S = (dep_edges compile_deps)\<^sup>* `` S"

text \<open>The loop invariant: everything met so far is reachable, the seeds are in the closure or
  waiting, and the dependencies of every node of the closure are in the closure or waiting.\<close>

definition bfs_inv :: "deps \<Rightarrow> pystr set \<Rightarrow> pystr set \<Rightarrow> pystr list \<Rightarrow> bool" where
  "bfs_inv cd S closure queue \<longleftrightarrow>
     closure \<subseteq> reachable cd S \<and> set queue \<subseteq> reachable cd S \<and> S \<subseteq> closure \<union> set queue \<and>
     (\<forall>u\<in>closure. set (deps_get cd u) \<subseteq> closure \<union> set queue)"

text \<open>The package named by the most recent \<open>Source-Makefile\<close> line of a sequence of lines,
  if there is one.\<close>

definition last_context :: "pystr list \<Rightarrow> pystr option" where
  "last_context lines =
     (let ms = filter (\<lambda>l. match_source_makefile l \<noteq> None) lines in
      if ms = [] then None else match_source_makefile (last ms))"

section \<open>Evaluation on concrete inputs\<close>

lemmas ev = str_def strip_def startswith_def endswith_def split1_def split_ws_def isspace_def
  py_index_def set_add_def set_of_list_def parse_line_def parse_deps_def Let_def
  match_source_makefile_def match_source_def pkg_line_def pkg_lines_def packages_with_source_def
  fold_host_def deps_get_def bfs_closure_def

section \<open>Properties of \<open>parse_deps\<close>\<close>

lemma parse_line_total: "\<exists>st'. parse_line st raw = Inr st'"
  by (cases st) (auto simp: parse_line_def Let_def py_index_def)

lemma parse_lines_total: "\<exists>st'. parse_lines st ls = Inr st'"
proof (induction ls arbitrary: st)
  case Nil
  show ?case by simp
next
  case (Cons l ls)
  obtain st1 where "parse_line st l = Inr st1"
    using parse_line_total by blast
  then show ?case using Cons.IH [of st1] by simp
qed

lemma parse_lines_append:
  "parse_lines st (xs @ ys) =
     (case parse_lines st xs of Inl e \<Rightarrow> Inl e | Inr st' \<Rightarrow> parse_lines st' ys)"
  by (induction xs arbitrary: st) (auto split: sum.splits)

lemma parse_deps_snoc:
  "parse_deps (pre @ raw # post) =
     (case parse_deps pre of Inl e \<Rightarrow> Inl e
      | Inr st \<Rightarrow> (case parse_line st raw of Inl e \<Rightarrow> Inl e | Inr st' \<Rightarrow> parse_lines st' post))"
  by (simp add: parse_deps_def parse_lines_append split: sum.splits)

lemma markers_exclusive:
  "startswith line (str ''DEPS:'') \<Longrightarrow> \<not> startswith line (str ''SELECTED:'')"
  by (cases line) (auto simp: startswith_def str_def)

lemma parse_line_malformed: "malformed raw \<Longrightarrow> parse_line st raw = Inr st"
  by (cases st) (auto simp: malformed_def parse_line_def Let_def dest: markers_exclusive)

text \<open>What one line does to the dependency mapping.\<close>

lemma parse_line_fst:
  "\<exists>sel'. parse_line (cd, sel) raw =
     Inr (case deps_record raw of
            None \<Rightarrow> cd
          | Some (k, v) \<Rightarrow> fmupd k (set_of_list (split_ws v)) cd, sel')"
  by (auto simp: parse_line_def deps_record_def Let_def py_index_def split1_def
      dest: markers_exclusive)

lemma deps_record_parts:
  assumes "strip raw = str ''DEPS:'' @ node @ 58 # rest" and "58 \<notin> set node"
  shows "deps_record raw = Some (node, rest)"
proof -
  have "drop 5 (strip raw) = node @ 58 # rest"
    using assms(1) by (simp add: str_def)
  moreover have "startswith (strip raw) (str ''DEPS:'')"
    using assms(1) by (simp add: startswith_def str_def)
  moreover have "takeWhile (\<lambda>c. c \<noteq> 58) (node @ 58 # rest) = node"
    using assms(2) by (induction node) auto
  moreover have "dropWhile (\<lambda>c. c \<noteq> 58) (node @ 58 # rest) = 58 # rest"
    using assms(2) by (induction node) auto
  ultimately show ?thesis
    by (simp add: deps_record_def Let_def)
qed

lemma parse_lines_keeps:
  assumes "\<forall>l\<in>set post. \<forall>v. deps_record l \<noteq> Some (node, v)"
  shows "\<exists>cd' sel'. parse_lines (cd, sel) post = Inr (cd', sel') \<and>
           fmlookup cd' node = fmlookup cd node"
  using assms
proof (induction post arbitrary: cd sel)
  case Nil
  show ?case by simp
next
  case (Cons l post)
  let ?cd1 = "case deps_record l of None \<Rightarrow> cd
          | Some (k, v) \<Rightarrow> fmupd k (set_of_list (split_ws v)) cd"
  obtain sel1 where step: "parse_line (cd, sel) l = Inr (?cd1, sel1)"
    using parse_line_fst by blast
  have same: "fmlookup ?cd1 node = fmlookup cd node"
    using Cons.prems by (auto split: option.splits)
  obtain cd' sel' where "parse_lines (?cd1, sel1) post = Inr (cd', sel')"
    and "fmlookup cd' node = fmlookup ?cd1 node"
    using Cons.IH [of ?cd1 sel1] Cons.prems by auto
  then show ?case using step same by simp
qed

text \<open>
  C6. When the dump holds several well-formed \<open>DEPS\<close> lines for one node, the dependency
  set recorded for the node is the dependency list of the last of them: whatever the lines
  before it (\<open>pre\<close>) recorded for the node is overwritten, not merged. Here \<open>raw\<close> is a
  well-formed line for \<open>node\<close> and no line after it is one.
\<close>

theorem parse_deps_last_wins:
  assumes "strip raw = str ''DEPS:'' @ node @ 58 # rest" and "58 \<notin> set node"
    and "\<forall>l\<in>set post. \<forall>v. deps_record l \<noteq> Some (node, v)"
  shows "\<exists>cd sel. parse_deps (pre @ raw # post) = Inr (cd, sel) \<and>
           fmlookup cd node = Some (set_of_list (split_ws rest)) \<and>
           set (deps_get cd node) = set (split_ws rest)"
proof -
  obtain cd0 sel0 where pre: "parse_deps pre = Inr (cd0, sel0)"
    using parse_lines_total [of "(fmempty, [])" pre] by (auto simp: parse_deps_def)
  have rec: "deps_record raw = Some (node, rest)"
    using assms(1,2) by (rule deps_record_parts)
  obtain sel1 where line:
    "parse_line (cd0, sel0) raw = Inr (fmupd node (set_of_list (split_ws rest)) cd0, sel1)"
    using parse_line_fst [of cd0 sel0 raw] rec by auto
  obtain cd sel where post:
    "parse_lines (fmupd node (set_of_list (split_ws rest)) cd0, sel1) post = Inr (cd, sel)"
    and keep: "fmlookup cd node = fmlookup (fmupd node (set_of_list (split_ws rest)) cd0) node"
    using parse_lines_keeps [OF assms(3)] by blast
  have "parse_deps (pre @ raw # post) = Inr (cd, sel)"
    by (simp add: parse_deps_snoc pre line post)
  moreover have "fmlookup cd node = Some (set_of_list (split_ws rest))"
    using keep by simp
  ultimately show ?thesis
    by (auto simp: deps_get_def set_of_list_def)
qed

theorem parse_deps_last_wins_witness:
  "strip (str ''DEPS:a:d\<newline>'') = str ''DEPS:'' @ str ''a'' @ 58 # str ''d'' \<and>
   58 \<notin> set (str ''a'') \<and>
   deps_record (str ''SELECTED:a'') = None \<and>
   (\<exists>cd sel.
      parse_deps ([str ''DEPS:a:b c''] @ str ''DEPS:a:d\<newline>'' # [str ''SELECTED:a'']) = Inr (cd, sel) \<and>
      fmlookup cd (str ''a'') = Some [str ''d''] \<and> set (deps_get cd (str ''a'')) = {str ''d''})"
proof -
  have h1: "strip (str ''DEPS:a:d\<newline>'') = str ''DEPS:'' @ str ''a'' @ 58 # str ''d''"
    by (simp add: ev)
  have h2: "58 \<notin> set (str ''a'')"
    by (simp add: str_def)
  have n: "deps_record (str ''SELECTED:a'') = None"
    by (simp add: deps_record_def ev)
  have h3: "\<forall>l\<in>set [str ''SELECTED:a'']. \<forall>v. deps_record l \<noteq> Some (str ''a'', v)"
    by (simp add: n)
  have v: "split_ws (str ''d'') = [str ''d'']" "set_of_list [str ''d''] = [str ''d'']"
    by (simp_all add: ev)
  show ?thesis
    using parse_deps_last_wins [OF h1 h2 h3, of "[str ''DEPS:a:b c'']"] h1 h2 n
    unfolding v by simp
qed

text \<open>
  C7. \<open>parse_deps\<close> never raises: on every sequence of lines it returns a mapping and a
  selected set. A line with neither marker, and a \<open>DEPS\<close> line whose rest does not split
  on \<open>:\<close> into exactly two parts, leave the state as it was, so that the result is the
  result on the dump without that line.
\<close>

theorem parse_deps_tolerates_malformed:
  "(\<exists>st. parse_deps lines = Inr st) \<and>
   (malformed raw \<longrightarrow>
      parse_line st raw = Inr st \<and> parse_deps (pre @ raw # post) = parse_deps (pre @ post))"
proof -
  have "\<exists>st. parse_deps lines = Inr st"
    unfolding parse_deps_def by (rule parse_lines_total)
  moreover have "parse_deps (pre @ raw # post) = parse_deps (pre @ post)" if "malformed raw"
    using that by (auto simp: parse_deps_def parse_lines_append parse_line_malformed split: sum.splits)
  ultimately show ?thesis
    by (simp add: parse_line_malformed)
qed

theorem parse_deps_tolerates_malformed_witness:
  "malformed (str ''DEPS:x'') \<and> malformed (str ''# comment'') \<and>
   parse_line (fmempty, [str ''a'']) (str ''DEPS:x'') = Inr (fmempty, [str ''a'']) \<and>
   parse_deps ([str ''SELECTED:a''] @ str ''DEPS:x'' # [str ''DEPS:a:x'']) =
     Inr (fmupd (str ''a'') [str ''x''] fmempty, [str ''a''])"
proof -
  have m: "malformed (str ''DEPS:x'')"
    by (simp add: malformed_def ev)
  have m': "malformed (str ''# comment'')"
    by (simp add: malformed_def ev)
  have r: "parse_deps ([str ''SELECTED:a''] @ [str ''DEPS:a:x'']) =
     Inr (fmupd (str ''a'') [str ''x''] fmempty, [str ''a''])"
    by (simp add: ev)
  show ?thesis
    using parse_deps_tolerates_malformed
      [of _ "str ''DEPS:x''" "(fmempty, [str ''a''])" "[str ''SELECTED:a'']" "[str ''DEPS:a:x'']"]
      m m' r by simp
qed

text \<open>
  C9. A line \<open>DEPS:<node>:\<close> with nothing after the second colon is well formed: the split
  gives the two parts \<open><node>\<close> and the empty string, and \<open>parse_deps\<close> records \<open><node>\<close> with
  the empty dependency set, in place of whatever was recorded for it before.
\<close>

theorem deps_line_empty_list:
  assumes "strip raw = str ''DEPS:'' @ node @ [58]" and "58 \<notin> set node"
  shows "length (split1 58 (drop 5 (strip raw))) = 2 \<and> \<not> malformed raw \<and>
         parse_line (compile_deps, selected) raw = Inr (fmupd node [] compile_deps, selected) \<and>
         (\<exists>cd sel. parse_deps (pre @ [raw]) = Inr (cd, sel) \<and> fmlookup cd node = Some [])"
proof -
  have body: "drop 5 (strip raw) = node @ [58]"
    using assms(1) by (simp add: str_def)
  have sw: "startswith (strip raw) (str ''DEPS:'')"
    using assms(1) by (simp add: startswith_def str_def)
  have tw: "takeWhile (\<lambda>c. c \<noteq> 58) (node @ [58]) = node"
    using assms(2) by (induction node) auto
  have dw: "dropWhile (\<lambda>c. c \<noteq> 58) (node @ [58]) = [58]"
    using assms(2) by (induction node) auto
  have parts: "split1 58 (drop 5 (strip raw)) = [node, []]"
    by (simp add: body split1_def tw dw)
  have step: "parse_line st raw = Inr (fmupd node [] (fst st), snd st)" for st
    using sw markers_exclusive [OF sw]
    by (cases st) (simp add: parse_line_def Let_def parts py_index_def set_of_list_def split_ws_def)
  obtain cd0 sel0 where pre: "parse_deps pre = Inr (cd0, sel0)"
    using parse_lines_total [of "(fmempty, [])" pre] by (auto simp: parse_deps_def)
  have "parse_deps (pre @ [raw]) = Inr (fmupd node [] cd0, sel0)"
    by (simp add: parse_deps_snoc pre step)
  then have "\<exists>cd sel. parse_deps (pre @ [raw]) = Inr (cd, sel) \<and> fmlookup cd node = Some []"
    by simp
  moreover have "\<not> malformed raw"
    using sw by (simp add: malformed_def Let_def parts)
  ultimately show ?thesis
    using step [of "(compile_deps, selected)"] by (simp add: parts)
qed

theorem deps_line_empty_list_witness:
  "strip (str ''DEPS:x:\<newline>'') = str ''DEPS:'' @ str ''x'' @ [58] \<and> 58 \<notin> set (str ''x'') \<and>
   parse_deps [str ''DEPS:x:y z''] = Inr (fmupd (str ''x'') [str ''y'', str ''z''] fmempty, []) \<and>
   parse_line (fmupd (str ''x'') [str ''y'', str ''z''] fmempty, []) (str ''DEPS:x:\<newline>'') =
     Inr (fmupd (str ''x'') [] fmempty, []) \<and>
   (\<exists>cd sel. parse_deps ([str ''DEPS:x:y z''] @ [str ''DEPS:x:\<newline>'']) = Inr (cd, sel) \<and>
      fmlookup cd (str ''x'') = Some [])"
proof -
  have h1: "strip (str ''DEPS:x:\<newline>'') = str ''DEPS:'' @ str ''x'' @ [58]"
    by (simp add: ev)
  have h2: "58 \<notin> set (str ''x'')"
    by (simp add: str_def)
  have p: "parse_deps [str ''DEPS:x:y z''] = Inr (fmupd (str ''x'') [str ''y'', str ''z''] fmempty, [])"
    by (simp add: ev)
  show ?thesis
    using deps_line_empty_list [OF h1 h2, of "fmupd (str ''x'') [str ''y'', str ''z''] fmempty" "[]"
        "[str ''DEPS:x:y z'']"] h1 h2 p
    by simp
qed

section \<open>Properties of \<open>bfs_closure\<close>\<close>

lemma Range_dep_edges:
  "Range (dep_edges cd) \<subseteq> (\<Union>ds\<in>fset (fmran cd). set ds)"
  by (auto simp: dep_edges_def deps_get_def split: option.splits intro: fmranI [OF sym])

lemma finite_Range_dep_edges: "finite (Range (dep_edges cd))"
  by (rule finite_subset [OF Range_dep_edges]) simp

lemma reachable_subset: "reachable cd S \<subseteq> S \<union> Range (dep_edges cd)"
proof
  fix v assume "v \<in> reachable cd S"
  then obtain u where "u \<in> S" and "(u, v) \<in> (dep_edges cd)\<^sup>*"
    by (auto simp: reachable_def)
  then show "v \<in> S \<union> Range (dep_edges cd)"
    by (auto elim: rtranclE)
qed

lemma finite_reachable: "finite S \<Longrightarrow> finite (reachable cd S)"
  by (rule finite_subset [OF reachable_subset]) (simp add: finite_Range_dep_edges)

lemma reachable_seed: "S \<subseteq> reachable cd S"
  by (auto simp: reachable_def)

lemma reachable_step:
  "u \<in> reachable cd S \<Longrightarrow> v \<in> set (deps_get cd u) \<Longrightarrow> v \<in> reachable cd S"
  by (auto simp: reachable_def dep_edges_def intro: rtrancl_into_rtrancl)

lemma reachable_least:
  assumes "S \<subseteq> C" and "\<forall>u\<in>C. set (deps_get cd u) \<subseteq> C"
  shows "reachable cd S \<subseteq> C"
proof
  fix v assume "v \<in> reachable cd S"
  then obtain u where u: "u \<in> S" and "(u, v) \<in> (dep_edges cd)\<^sup>*"
    by (auto simp: reachable_def)
  from this(2) show "v \<in> C"
  proof (induction rule: rtrancl_induct)
    case base
    show ?case using u assms(1) by blast
  next
    case (step y z)
    then show ?case using assms(2) by (auto simp: dep_edges_def)
  qed
qed

lemma bfs_inv_done:
  assumes "bfs_inv cd S closure []"
  shows "closure = reachable cd S"
proof
  show "closure \<subseteq> reachable cd S"
    using assms by (simp add: bfs_inv_def)
  show "reachable cd S \<subseteq> closure"
    using assms by (intro reachable_least) (auto simp: bfs_inv_def)
qed

lemma bfs_inv_skip:
  assumes "bfs_inv cd S closure queue" and "queue \<noteq> []" and "last queue \<in> closure"
  shows "bfs_inv cd S closure (butlast queue)"
proof -
  have "set queue = insert (last queue) (set (butlast queue))"
    using assms(2) by (metis append_butlast_last_id list.set(1,2) set_append Un_insert_right sup_bot.right_neutral)
  then show ?thesis
    using assms(1,3) unfolding bfs_inv_def by auto
qed

lemma bfs_inv_expand:
  assumes "bfs_inv cd S closure queue" and "queue \<noteq> []" and "last queue \<notin> closure"
  shows "bfs_inv cd S (insert (last queue) closure)
           (butlast queue @ filter (\<lambda>dep. dep \<notin> insert (last queue) closure) (deps_get cd (last queue)))"
proof -
  have q: "set queue = insert (last queue) (set (butlast queue))"
    using assms(2) by (metis append_butlast_last_id list.set(1,2) set_append Un_insert_right sup_bot.right_neutral)
  have n: "last queue \<in> reachable cd S"
    using assms(1,2) by (auto simp: bfs_inv_def)
  have d: "set (deps_get cd (last queue)) \<subseteq> reachable cd S"
    using n reachable_step by blast
  show ?thesis
    using assms(1) n d unfolding bfs_inv_def q by auto
qed

lemma bfs_induct [consumes 2, case_names stop skip expand]:
  assumes fin: "finite S" and inv: "bfs_inv cd S closure queue"
    and stop: "\<And>c. bfs_inv cd S c [] \<Longrightarrow> P c []"
    and skip: "\<And>c q. bfs_inv cd S c q \<Longrightarrow> q \<noteq> [] \<Longrightarrow> last q \<in> c \<Longrightarrow> P c (butlast q) \<Longrightarrow> P c q"
    and expand: "\<And>c q. bfs_inv cd S c q \<Longrightarrow> q \<noteq> [] \<Longrightarrow> last q \<notin> c \<Longrightarrow>
        P (insert (last q) c)
          (butlast q @ filter (\<lambda>dep. dep \<notin> insert (last q) c) (deps_get cd (last q))) \<Longrightarrow>
        P c q"
  shows "P closure queue"
proof -
  let ?R = "reachable cd S"
  let ?m = "\<lambda>(c :: pystr set, q :: pystr list). (card (?R - c), length q)"
  have finR: "finite ?R"
    using fin by (rule finite_reachable)
  have "wf (inv_image (less_than <*lex*> less_than) ?m)"
    by (intro wf_inv_image wf_lex_prod wf_less_than)
  then show ?thesis
    using inv
  proof (induction "(closure, queue)" arbitrary: closure queue rule: wf_induct_rule)
    case less
    show ?case
    proof (cases "queue = []")
      case True
      then show ?thesis using less.prems stop by simp
    next
      case False
      show ?thesis
      proof (cases "last queue \<in> closure")
        case True
        have "P closure (butlast queue)"
          using False by (intro less.hyps bfs_inv_skip less.prems True) simp_all
        then show ?thesis
          using less.prems False True by (rule skip [rotated 3])
      next
        case nin: False
        have "last queue \<in> ?R"
          using less.prems False by (auto simp: bfs_inv_def)
        then have "card (?R - insert (last queue) closure) < card (?R - closure)"
          using finR nin by (intro psubset_card_mono) auto
        then have "P (insert (last queue) closure)
          (butlast queue @ filter (\<lambda>dep. dep \<notin> insert (last queue) closure) (deps_get cd (last queue)))"
          using False nin by (intro less.hyps bfs_inv_expand less.prems) simp_all
        then show ?thesis
          using less.prems False nin by (rule expand [rotated 3])
      qed
    qed
  qed
qed

lemma bfs_loop_reachable:
  assumes "finite S" and "bfs_inv cd S closure queue"
  shows "bfs_loop cd closure queue = Some (reachable cd S)"
  using assms
proof (induction rule: bfs_induct)
  case (stop c)
  then show ?case
    by (simp add: bfs_loop.simps bfs_inv_done)
next
  case (skip c q)
  then show ?case
    by (subst bfs_loop.simps) (simp add: Let_def)
next
  case (expand c q)
  then show ?case
    by (subst bfs_loop.simps) (simp add: Let_def)
qed

lemma bfs_expansions_distinct:
  assumes "finite S" and "bfs_inv cd S closure queue"
  shows "distinct ex \<and> set ex = closure \<longrightarrow>
         (\<exists>ex'. bfs_expansions cd closure queue ex = Some (reachable cd S, ex') \<and>
                distinct ex' \<and> set ex' = reachable cd S)"
  using assms
proof (induction arbitrary: ex rule: bfs_induct)
  case (stop c)
  then show ?case
    by (simp add: bfs_expansions.simps bfs_inv_done)
next
  case (skip c q)
  then show ?case
    by (subst bfs_expansions.simps) (simp add: Let_def)
next
  case (expand c q)
  show ?case
  proof
    assume ex: "distinct ex \<and> set ex = c"
    then have "distinct (ex @ [last q]) \<and> set (ex @ [last q]) = insert (last q) c"
      using expand.hyps(3) by auto
    then show "\<exists>ex'. bfs_expansions cd c q ex = Some (reachable cd S, ex') \<and>
                distinct ex' \<and> set ex' = reachable cd S"
      using expand.IH [of "ex @ [last q]"] expand.hyps(2,3)
      by (subst bfs_expansions.simps) (simp add: Let_def)
  qed
qed

lemma bfs_inv_init: "bfs_inv cd (set selected) {} selected"
  by (simp add: bfs_inv_def reachable_seed)

lemma bfs_closure_reachable:
  "bfs_closure selected cd = Some (reachable cd (set selected))"
  unfolding bfs_closure_def by (rule bfs_loop_reachable [OF _ bfs_inv_init]) simp

text \<open>
  C2. For every dependency relation and every selected set, \<open>bfs_closure\<close> returns the set
  of nodes reachable from the selected nodes along the edges of the relation. The closure
  contains every seed, and a node that is referenced as a dependency of a reachable node but
  is no key of the relation is in the closure and has no outgoing edge.
\<close>

theorem bfs_closure_is_reachable:
  "bfs_closure selected compile_deps = Some (reachable compile_deps (set selected)) \<and>
   set selected \<subseteq> reachable compile_deps (set selected) \<and>
   (u \<in> reachable compile_deps (set selected) \<and> dep \<in> set (deps_get compile_deps u) \<and>
      fmlookup compile_deps dep = None \<longrightarrow>
    dep \<in> reachable compile_deps (set selected) \<and> deps_get compile_deps dep = [])"
  using bfs_closure_reachable [of selected compile_deps]
    reachable_seed [of "set selected" compile_deps]
    reachable_step [of u compile_deps "set selected" dep]
  by (simp add: deps_get_def)

theorem bfs_closure_is_reachable_witness:
  "bfs_closure [str ''a''] (fmupd (str ''b'') [str ''a'', str ''c''] (fmupd (str ''a'') [str ''b''] fmempty)) =
     Some {str ''c'', str ''b'', str ''a''} \<and>
   str ''b'' \<in> reachable (fmupd (str ''b'') [str ''a'', str ''c''] (fmupd (str ''a'') [str ''b''] fmempty))
     (set [str ''a'']) \<and>
   str ''c'' \<in> set (deps_get (fmupd (str ''b'') [str ''a'', str ''c''] (fmupd (str ''a'') [str ''b''] fmempty))
     (str ''b'')) \<and>
   fmlookup (fmupd (str ''b'') [str ''a'', str ''c''] (fmupd (str ''a'') [str ''b''] fmempty)) (str ''c'') = None \<and>
   str ''c'' \<in> reachable (fmupd (str ''b'') [str ''a'', str ''c''] (fmupd (str ''a'') [str ''b''] fmempty))
     (set [str ''a'']) \<and>
   deps_get (fmupd (str ''b'') [str ''a'', str ''c''] (fmupd (str ''a'') [str ''b''] fmempty)) (str ''c'') = []"
proof -
  let ?cd = "fmupd (str ''b'') [str ''a'', str ''c''] (fmupd (str ''a'') [str ''b''] fmempty)"
  note inst = bfs_closure_is_reachable [of "[str ''a'']" ?cd "str ''b''" "str ''c''"]
  have e: "bfs_closure [str ''a''] ?cd = Some {str ''c'', str ''b'', str ''a''}"
    by (simp add: ev bfs_loop.simps)
  have r: "reachable ?cd (set [str ''a'']) = {str ''c'', str ''b'', str ''a''}"
    using inst e by simp
  have h1: "str ''b'' \<in> reachable ?cd (set [str ''a''])"
    unfolding r by simp
  have h2: "str ''c'' \<in> set (deps_get ?cd (str ''b''))"
    by (simp add: ev)
  have h3: "fmlookup ?cd (str ''c'') = None"
    by (simp add: str_def)
  have "str ''c'' \<in> reachable ?cd (set [str ''a'']) \<and> deps_get ?cd (str ''c'') = []"
    using inst h1 h2 h3 by blast
  then show ?thesis
    using e h1 h2 h3 by blast
qed

text \<open>
  C3. For every (finite) dependency relation and every selected set, with or without cycles,
  \<open>bfs_closure\<close> returns. The nodes the loop adds to the closure and expands, in the order
  in which it does so, form a list without repetition whose elements are the closure: every
  node is added and expanded at most once.
\<close>

theorem bfs_closure_terminates:
  "\<exists>closure expanded.
      bfs_closure selected compile_deps = Some closure \<and>
      bfs_expansions compile_deps {} selected [] = Some (closure, expanded) \<and>
      distinct expanded \<and> set expanded = closure"
proof -
  have "finite (set selected)"
    by simp
  then obtain ex' where
    "bfs_expansions compile_deps {} selected [] = Some (reachable compile_deps (set selected), ex')"
    and "distinct ex'" and "set ex' = reachable compile_deps (set selected)"
    using bfs_expansions_distinct [where S = "set selected" and cd = compile_deps
        and closure = "{}" and queue = selected and ex = "[]"] bfs_inv_init [of compile_deps selected]
    by auto
  then show ?thesis
    using bfs_closure_reachable [of selected compile_deps] by blast
qed

theorem bfs_closure_terminates_witness:
  "bfs_closure [str ''a''] (fmupd (str ''b'') [str ''a''] (fmupd (str ''a'') [str ''b'', str ''a''] fmempty)) =
     Some {str ''b'', str ''a''} \<and>
   bfs_expansions (fmupd (str ''b'') [str ''a''] (fmupd (str ''a'') [str ''b'', str ''a''] fmempty)) {}
     [str ''a''] [] = Some ({str ''b'', str ''a''}, [str ''a'', str ''b''])"
proof -
  let ?cd = "fmupd (str ''b'') [str ''a''] (fmupd (str ''a'') [str ''b'', str ''a''] fmempty)"
  have e: "bfs_expansions ?cd {} [str ''a''] [] = Some ({str ''b'', str ''a''}, [str ''a'', str ''b''])"
    by (simp add: ev bfs_expansions.simps)
  then show ?thesis
    using bfs_closure_terminates [of "[str ''a'']" ?cd] by auto
qed


section \<open>Properties of \<open>packages_with_source\<close>\<close>

lemma greedy_nonempty: "greedy suf rest n = Some g \<Longrightarrow> n \<le> length rest \<Longrightarrow> g \<noteq> []"
  by (induction n) (auto split: if_splits)

lemma match_source_makefile_nonempty: "match_source_makefile l = Some g \<Longrightarrow> g \<noteq> []"
proof -
  assume m: "match_source_makefile l = Some g"
  let ?rest = "drop (length (str ''Source-Makefile: package/'')) l"
  have "greedy (str ''/Makefile'') ?rest (length (takeWhile (\<lambda>c. c \<noteq> 10) ?rest)) = Some g"
    using m by (simp add: match_source_makefile_def Let_def split: if_splits)
  then show ?thesis
    by (rule greedy_nonempty) (rule length_takeWhile_le)
qed

lemma match_exclusive:
  assumes "match_source_makefile l \<noteq> None"
  shows "match_source l = None"
proof (rule ccontr)
  let ?p = "str ''Source: ''" and ?q = "str ''Source-Makefile: package/''"
  assume "match_source l \<noteq> None"
  then have a: "take (length ?p) l = ?p"
    by (simp add: match_source_def startswith_def Let_def split: if_splits)
  have b: "take (length ?q) l = ?q"
    using assms by (simp add: match_source_makefile_def startswith_def Let_def split: if_splits)
  have "take 7 (take (length ?p) l) = take 7 (take (length ?q) l)"
    by (simp add: str_def)
  then have "take 7 ?p = take 7 ?q"
    by (simp only: a b)
  then show False
    by (simp add: str_def)
qed

lemma first_char_source: "match_source l \<noteq> None \<Longrightarrow> l \<noteq> [] \<and> hd l = 83"
  by (cases l) (auto simp: match_source_def startswith_def Let_def str_def split: if_splits)

lemma first_char_makefile: "match_source_makefile l \<noteq> None \<Longrightarrow> l \<noteq> [] \<and> hd l = 83"
  by (cases l) (auto simp: match_source_makefile_def startswith_def Let_def str_def split: if_splits)

lemma pkg_lines_snoc: "pkg_lines st (xs @ [x]) = pkg_line (pkg_lines st xs) x"
  by (simp add: pkg_lines_def)

lemma last_context_snoc:
  "last_context (pre @ [l]) =
     (case match_source_makefile l of None \<Rightarrow> last_context pre | Some g \<Rightarrow> Some g)"
  by (auto simp: last_context_def Let_def split: option.splits)

lemma cur_is_last_context: "snd (pkg_lines ({}, None) pre) = last_context pre"
proof (induction pre rule: rev_induct)
  case Nil
  show ?case by (simp add: pkg_lines_def last_context_def)
next
  case (snoc x xs)
  then show ?case
    by (cases "pkg_lines ({}, None) xs")
       (auto simp: pkg_lines_snoc last_context_snoc pkg_line_def split: option.splits)
qed

lemma last_context_nonempty: "last_context pre = Some n \<Longrightarrow> n \<noteq> []"
  by (auto simp: last_context_def Let_def match_source_makefile_nonempty split: if_splits)

lemma packages_with_source_snoc:
  "packages_with_source (pre @ [l]) =
     packages_with_source pre \<union>
     (if match_source l \<noteq> None then (case last_context pre of None \<Rightarrow> {} | Some n \<Rightarrow> {n}) else {})"
proof -
  obtain hs cur where st: "pkg_lines ({}, None) pre = (hs, cur)"
    by (cases "pkg_lines ({}, None) pre")
  have cur: "cur = last_context pre"
    using cur_is_last_context [of pre] st by simp
  show ?thesis
  proof (cases "match_source_makefile l")
    case (Some g)
    then have "match_source l = None"
      by (intro match_exclusive) simp
    then show ?thesis
      using Some st by (simp add: packages_with_source_def pkg_lines_snoc pkg_line_def)
  next
    case None
    then show ?thesis
      using st cur last_context_nonempty [of pre]
      by (auto simp: packages_with_source_def pkg_lines_snoc pkg_line_def split: option.splits)
  qed
qed

lemma packages_with_source_iff:
  "n \<in> packages_with_source lines \<longleftrightarrow>
     (\<exists>pre l post. lines = pre @ l # post \<and> match_source l \<noteq> None \<and> last_context pre = Some n)"
proof (induction lines rule: rev_induct)
  case Nil
  show ?case by (simp add: packages_with_source_def pkg_lines_def)
next
  case (snoc x xs)
  have split: "(\<exists>pre l post. xs @ [x] = pre @ l # post \<and> P pre l) \<longleftrightarrow>
        (\<exists>pre l post. xs = pre @ l # post \<and> P pre l) \<or> P xs x" for P
  proof
    assume "\<exists>pre l post. xs @ [x] = pre @ l # post \<and> P pre l"
    then obtain pre l post where e: "xs @ [x] = pre @ l # post" and p: "P pre l"
      by blast
    show "(\<exists>pre l post. xs = pre @ l # post \<and> P pre l) \<or> P xs x"
    proof (cases post rule: rev_cases)
      case Nil
      then show ?thesis using e p by simp
    next
      case (snoc post' y)
      then have "xs = pre @ l # post'" using e by simp
      then show ?thesis using p by blast
    qed
  next
    assume "(\<exists>pre l post. xs = pre @ l # post \<and> P pre l) \<or> P xs x"
    then show "\<exists>pre l post. xs @ [x] = pre @ l # post \<and> P pre l"
    proof
      assume "\<exists>pre l post. xs = pre @ l # post \<and> P pre l"
      then obtain pre l post where "xs = pre @ l # post" and "P pre l" by blast
      then have "xs @ [x] = pre @ l # (post @ [x]) \<and> P pre l" by simp
      then show ?thesis by blast
    next
      assume "P xs x"
      then have "xs @ [x] = xs @ x # [] \<and> P xs x" by simp
      then show ?thesis by blast
    qed
  qed
  show ?case
    unfolding packages_with_source_snoc
    using snoc.IH split [of "\<lambda>pre l. match_source l \<noteq> None \<and> last_context pre = Some n"]
    by (auto split: option.splits)
qed

lemma pkg_lines_append: "pkg_lines st (xs @ ys) = pkg_lines (pkg_lines st xs) ys"
  by (simp add: pkg_lines_def)

lemma pkg_lines_Cons: "pkg_lines st (x # xs) = pkg_lines (pkg_line st x) xs"
  by (simp add: pkg_lines_def)

text \<open>
  C8. A \<open>Source:\<close> line adds a package name to the source-availability set exactly when
  a \<open>Source-Makefile: package/<name>/Makefile\<close> line precedes it, and the name it adds is
  that of the most recent such line: \<open>n\<close> is in the result iff the stream has a \<open>Source:\<close>
  line before which the most recent context is \<open>n\<close>. The variable \<open>cur\<close> is the most recent
  context; it is \<open>None\<close> before the first context line, is kept by a line that is no context
  line, and is replaced by a context line.
\<close>

theorem source_line_adds_current_package:
  "(n \<in> packages_with_source lines \<longleftrightarrow>
      (\<exists>pre l post. lines = pre @ l # post \<and> match_source l \<noteq> None \<and> last_context pre = Some n)) \<and>
   snd (pkg_lines ({}, None) lines) = last_context lines \<and>
   last_context [] = None \<and>
   last_context (lines @ [l]) =
     (case match_source_makefile l of None \<Rightarrow> last_context lines | Some g \<Rightarrow> Some g) \<and>
   packages_with_source (lines @ [l]) =
     packages_with_source lines \<union>
     (if match_source l \<noteq> None then (case last_context lines of None \<Rightarrow> {} | Some n \<Rightarrow> {n}) else {})"
proof -
  have "last_context [] = None"
    by (simp add: last_context_def)
  then show ?thesis
    using packages_with_source_iff [of n lines] cur_is_last_context [of lines]
      last_context_snoc [of lines l] packages_with_source_snoc [of lines l]
    by blast
qed

theorem source_line_adds_current_package_witness:
  "match_source (str ''Source: y\<newline>'') \<noteq> None \<and>
   last_context [str ''Source: x\<newline>'', str ''Source-Makefile: package/b/Makefile\<newline>'',
       str ''Title: b\<newline>''] = Some (str ''b'') \<and>
   str ''b'' \<in> packages_with_source
     [str ''Source: x\<newline>'', str ''Source-Makefile: package/b/Makefile\<newline>'',
      str ''Title: b\<newline>'', str ''Source: y\<newline>''] \<and>
   packages_with_source [str ''Source: x\<newline>''] = {}"
proof -
  let ?pre = "[str ''Source: x\<newline>'', str ''Source-Makefile: package/b/Makefile\<newline>'',
       str ''Title: b\<newline>'']"
  have m: "match_source (str ''Source: y\<newline>'') \<noteq> None"
    by (simp add: ev)
  have c: "last_context ?pre = Some (str ''b'')"
    by (simp add: last_context_def ev)
  have e: "packages_with_source [str ''Source: x\<newline>''] = {}"
    by (simp add: ev)
  have "\<exists>pre l post. ?pre @ [str ''Source: y\<newline>''] = pre @ l # post \<and>
          match_source l \<noteq> None \<and> last_context pre = Some (str ''b'')"
    using m c by blast
  then have "str ''b'' \<in> packages_with_source (?pre @ [str ''Source: y\<newline>''])"
    using source_line_adds_current_package [of "str ''b''" "?pre @ [str ''Source: y\<newline>'']"]
    by blast
  then show ?thesis
    using m c e by simp
qed

text \<open>
  C10. \<open>packages_with_source\<close> does not strip its lines: a line that starts with whitespace
  matches neither pattern, whatever follows the whitespace, and is ignored; the result is
  the result on the stream without that line. \<open>parse_deps\<close>, which strips, treats the line
  as it treats the line without the leading whitespace.
\<close>

theorem pkginfo_lines_not_stripped:
  assumes "ws \<noteq> []" and "\<forall>c\<in>set ws. isspace c"
  shows "match_source_makefile (ws @ rest) = None \<and> match_source (ws @ rest) = None \<and>
         pkg_line st (ws @ rest) = st \<and>
         packages_with_source (pre @ (ws @ rest) # post) = packages_with_source (pre @ post) \<and>
         parse_line dst (ws @ rest) = parse_line dst rest"
proof -
  have "hd (ws @ rest) = hd ws" and "isspace (hd ws)"
    using assms by simp_all
  then have "hd (ws @ rest) \<noteq> 83"
    by (auto simp: isspace_def)
  then have a: "match_source_makefile (ws @ rest) = None" and b: "match_source (ws @ rest) = None"
    using first_char_makefile [of "ws @ rest"] first_char_source [of "ws @ rest"] by blast+
  have c: "pkg_line st (ws @ rest) = st" for st
    by (cases st) (simp add: pkg_line_def a b)
  have d: "packages_with_source (pre @ (ws @ rest) # post) = packages_with_source (pre @ post)"
    by (simp add: packages_with_source_def pkg_lines_append pkg_lines_Cons c)
  have "strip (ws @ rest) = strip rest"
    using assms(2) by (simp add: strip_def dropWhile_append)
  then have e: "parse_line dst (ws @ rest) = parse_line dst rest"
    by (simp add: parse_line_def)
  show ?thesis
    using a b c d e by blast
qed

theorem pkginfo_lines_not_stripped_witness:
  "str '' '' \<noteq> [] \<and> isspace 32 \<and>
   packages_with_source [str '' '' @ str ''Source-Makefile: package/b/Makefile\<newline>'', str ''Source: x\<newline>''] = {} \<and>
   packages_with_source [str ''Source-Makefile: package/b/Makefile\<newline>'', str '' '' @ str ''Source: x\<newline>''] = {} \<and>
   packages_with_source [str ''Source-Makefile: package/b/Makefile\<newline>'', str ''Source: x\<newline>''] = {str ''b''} \<and>
   parse_line (fmempty, []) (str '' '' @ str ''SELECTED:a'') = Inr (fmempty, [str ''a''])"
proof -
  let ?ctx = "str ''Source-Makefile: package/b/Makefile\<newline>''" and ?src = "str ''Source: x\<newline>''"
  have h1: "str '' '' \<noteq> []" and h2: "\<forall>c\<in>set (str '' ''). isspace c" and h3: "isspace 32"
    by (simp_all add: str_def isspace_def)
  have a: "packages_with_source [?src] = {}"
    by (simp add: ev)
  have b: "packages_with_source [?ctx] = {}"
    by (simp add: ev)
  have c: "packages_with_source [?ctx, ?src] = {str ''b''}"
    by (simp add: ev)
  have d: "parse_line (fmempty, []) (str ''SELECTED:a'') = Inr (fmempty, [str ''a''])"
    by (simp add: ev)
  show ?thesis
    using pkginfo_lines_not_stripped [OF h1 h2, of ?ctx _ "[]" "[?src]"]
      pkginfo_lines_not_stripped [OF h1 h2, of ?src _ "[?ctx]" "[]"]
      pkginfo_lines_not_stripped [OF h1 h2, of "str ''SELECTED:a''" _ _ _ "(fmempty, [])"]
      h1 h3 a b c d
    by simp
qed

section \<open>Properties of the extras computed by \<open>main\<close>\<close>

lemma print_extras_map_filter:
  "print_extras has_source ds = map fold_host (filter (\<lambda>d. fold_host d \<in> has_source) ds)"
  by (induction ds) (simp_all add: Let_def)

lemma fold_host_suffix: "fold_host (c @ str ''/host'') = c"
  by (simp add: fold_host_def endswith_def str_def)

lemma sorted_list_of_set_eqI: "sorted_wrt (<) xs \<Longrightarrow> set xs = A \<Longrightarrow> sorted_list_of_set A = xs"
  by (auto simp: strict_sorted_iff sorted_list_of_set.idem_if_sorted_distinct)

text \<open>
  C5. For an extra identifier that ends in \<open>/host\<close> the candidate is the identifier without
  that suffix, and the loop prints the candidate, not the identifier, exactly when the
  candidate is in the source-availability set. For \<open>feeds/packages/libffi/host\<close> the line
  printed is \<open>feeds/packages/libffi\<close> when that name has a source, and nothing otherwise.
\<close>

theorem host_variant_folding:
  "fold_host (c @ str ''/host'') = c \<and>
   print_extras has_source ((c @ str ''/host'') # ds) =
     (if c \<in> has_source then c # print_extras has_source ds else print_extras has_source ds) \<and>
   print_extras {str ''feeds/packages/libffi''} [str ''feeds/packages/libffi/host''] =
     [str ''feeds/packages/libffi''] \<and>
   print_extras {} [str ''feeds/packages/libffi/host''] = []"
proof -
  have s: "str ''feeds/packages/libffi/host'' = str ''feeds/packages/libffi'' @ str ''/host''"
    by (simp add: str_def)
  have a: "print_extras has_source ((c @ str ''/host'') # ds) =
     (if c \<in> has_source then c # print_extras has_source ds else print_extras has_source ds)"
    by (simp add: fold_host_suffix Let_def)
  have b: "print_extras {str ''feeds/packages/libffi''} [str ''feeds/packages/libffi/host''] =
     [str ''feeds/packages/libffi'']"
    unfolding s by (simp add: fold_host_suffix Let_def)
  have c: "print_extras {} [str ''feeds/packages/libffi/host''] = []"
    by (simp add: Let_def)
  show ?thesis
    using fold_host_suffix [of c] a b c by blast
qed

text \<open>
  C4. The lines printed are the candidates of the qualifying extra identifiers, taken in
  strictly ascending order of the identifiers themselves (before folding), one line for
  each qualifying identifier: the number of lines is the number of qualifying identifiers,
  so that two identifiers with the same candidate give two equal lines.
\<close>

theorem extras_one_line_per_extra:
  "\<exists>closure ks.
      bfs_closure selected compile_deps = Some closure \<and>
      sorted_wrt (<) ks \<and>
      set ks = {d \<in> closure - set selected. fold_host d \<in> has_source} \<and>
      extras compile_deps selected has_source = Some (map fold_host ks) \<and>
      length (map fold_host ks) = card {d \<in> closure - set selected. fold_host d \<in> has_source}"
proof -
  let ?closure = "reachable compile_deps (set selected)"
  let ?ks = "filter (\<lambda>d. fold_host d \<in> has_source) (sorted_list_of_set (?closure - set selected))"
  have fin: "finite (?closure - set selected)"
    by (simp add: finite_reachable)
  have b: "bfs_closure selected compile_deps = Some ?closure"
    by (rule bfs_closure_reachable)
  have s: "sorted_wrt (<) ?ks"
    by (simp add: sorted_wrt_filter)
  have m: "set ?ks = {d \<in> ?closure - set selected. fold_host d \<in> has_source}"
    using fin by auto
  have e: "extras compile_deps selected has_source = Some (map fold_host ?ks)"
    by (simp add: extras_def b print_extras_map_filter)
  have "distinct ?ks"
    using s by (simp add: strict_sorted_iff)
  then have "card (set ?ks) = length ?ks"
    by (rule distinct_card)
  then have l: "length (map fold_host ?ks) = card {d \<in> ?closure - set selected. fold_host d \<in> has_source}"
    unfolding m by simp
  show ?thesis
    using b s m e l by blast
qed

theorem extras_one_line_per_extra_witness:
  "extras (fmupd (str ''a'') [str ''x/host'', str ''x''] fmempty) [str ''a''] {str ''x''} =
     Some [str ''x'', str ''x'']"
proof -
  let ?cd = "fmupd (str ''a'') [str ''x/host'', str ''x''] fmempty"
  have b: "bfs_closure [str ''a''] ?cd = Some {str ''x/host'', str ''x'', str ''a''}"
    by (simp add: ev bfs_loop.simps insert_commute)
  have s: "sorted_list_of_set ({str ''x/host'', str ''x'', str ''a''} - {str ''a''}) = [str ''x'', str ''x/host'']"
    by (rule sorted_list_of_set_eqI) (auto simp: str_def)
  have f: "fold_host (str ''x/host'') = str ''x''" "fold_host (str ''x'') = str ''x''"
    by (simp_all add: ev)
  have "extras ?cd [str ''a''] {str ''x''} = Some [str ''x'', str ''x'']"
    by (simp add: extras_def b s f Let_def)
  then show ?thesis
    using extras_one_line_per_extra [of "[str ''a'']" ?cd "{str ''x''}"] by blast
qed

text \<open>
  C1. No line printed by the extras loop should name a selected node. On the dump
  \<open>SELECTED:a\<close>, \<open>DEPS:a:a/host\<close> with a source declared for \<open>a\<close>, the extra \<open>a/host\<close> folds to
  \<open>a\<close>, and \<open>main\<close> prints \<open>a\<close>, which is selected: the selected nodes are removed before the
  folding, and the folded candidate is not tested against them.
\<close>

theorem extras_prints_selected:
  "main [str ''SELECTED:a'', str ''DEPS:a:a/host'']
     [str ''Source-Makefile: package/a/Makefile\<newline>'', str ''Source: x\<newline>''] = Some (Inr [str ''a'']) \<and>
   parse_deps [str ''SELECTED:a'', str ''DEPS:a:a/host''] =
     Inr (fmupd (str ''a'') [str ''a/host''] fmempty, [str ''a'']) \<and>
   extras (fmupd (str ''a'') [str ''a/host''] fmempty) [str ''a''] {str ''a''} = Some [str ''a''] \<and>
   str ''a'' \<in> set [str ''a'']"
proof -
  let ?cd = "fmupd (str ''a'') [str ''a/host''] fmempty"
  have pd: "parse_deps [str ''SELECTED:a'', str ''DEPS:a:a/host''] = Inr (?cd, [str ''a''])"
    by (simp add: ev)
  have b: "bfs_closure [str ''a''] ?cd = Some {str ''a/host'', str ''a''}"
    by (simp add: ev bfs_loop.simps)
  have pk: "packages_with_source
      [str ''Source-Makefile: package/a/Makefile\<newline>'', str ''Source: x\<newline>''] = {str ''a''}"
    by (simp add: ev)
  have s: "sorted_list_of_set ({str ''a/host'', str ''a''} - {str ''a''}) = [str ''a/host'']"
    by (rule sorted_list_of_set_eqI) (auto simp: str_def)
  have f: "fold_host (str ''a/host'') = str ''a''"
    by (simp add: ev)
  have m: "main [str ''SELECTED:a'', str ''DEPS:a:a/host'']
     [str ''Source-Makefile: package/a/Makefile\<newline>'', str ''Source: x\<newline>''] = Some (Inr [str ''a''])"
    by (simp add: main_def pd b pk s f Let_def)
  have e: "extras ?cd [str ''a''] {str ''a''} = Some [str ''a'']"
    by (simp add: extras_def b s f Let_def)
  show ?thesis
    using m pd e by simp
qed

end
